theory Spec2Isabelle
  imports Main "HOL-Library.AList" "HOL-Library.Multiset"
begin

section \<open>The substitution rule\<close>

text \<open>
  The process environment is a finite table from names to values. \<open>os.Getenv\<close> returns
  the value of a name, and the empty string when the name is not set.
\<close>

type_synonym env = "string \<rightharpoonup> string"

definition Getenv :: "env \<Rightarrow> string \<Rightarrow> string" where
  "Getenv env name = (case env name of None \<Rightarrow> [] | Some v \<Rightarrow> v)"

text \<open>
  \<open>strings.HasPrefix(s, p)\<close> is \<open>len(s) >= len(p) && s[:len(p)] == p\<close>, and
  \<open>strings.TrimPrefix(s, p)\<close> drops \<open>p\<close> from the front of \<open>s\<close> when it is there.
  A Go string is a sequence of bytes, as \<^typ>\<open>string\<close> is.
\<close>

definition HasPrefix :: "string \<Rightarrow> string \<Rightarrow> bool" where
  "HasPrefix s p = (length p \<le> length s \<and> take (length p) s = p)"

definition TrimPrefix :: "string \<Rightarrow> string \<Rightarrow> string" where
  "TrimPrefix s p = (if HasPrefix s p then drop (length p) s else s)"

definition expandEnvVar :: "env \<Rightarrow> string \<Rightarrow> string" where
  "expandEnvVar env s =
     (if \<not> HasPrefix s ''$'' then s
      else let varName = TrimPrefix s ''$'' in Getenv env varName)"

section \<open>Values as reflection sees them\<close>

text \<open>
  A value is a finite tree. Every pointer, slice and map owns what it refers to, so two
  handles never reach the same storage and no value contains itself: the traversal of
  such a tree always ends, and what it does to a shared or cyclic structure is outside
  this model. So are the kinds the traversal passes over as it passes over \<open>VInt\<close>
  (floats, channels, functions), and map keys that are not equal to themselves (a
  floating-point NaN).

  \<^item> \<open>VString d s\<close>: a value of kind String with content \<open>s\<close>; \<open>d\<close> tells that its type
    is a defined type (\<open>type Secret string\<close>) and not the predeclared \<open>string\<close>.
  \<^item> \<open>VPtr None\<close> is a nil pointer, \<open>VPtr (Some t)\<close> points to \<open>t\<close>.
  \<^item> \<open>VStruct fs\<close>: the fields in declaration order, each with its name, whether it is
    exported, and its value.
  \<^item> \<open>VSlice xs\<close> and \<open>VArray xs\<close>: the elements by index. A nil slice is \<open>VSlice []\<close>.
  \<^item> \<open>VMap m\<close>: the entries, in the order in which \<open>MapKeys\<close> returns their keys.
    Go leaves that order open, so a property of maps is stated for every order of
    the entries. The keys of a Go map are distinct (\<open>wf\<close> below). A nil map is
    \<open>VMap []\<close>.
  \<^item> \<open>VInterface\<close>: a value of interface type, nil or holding a dynamic value.
  \<^item> \<open>VInt\<close>, \<open>VBool\<close>: values of the other kinds.
\<close>

datatype key = StringKey string | IntKey int

datatype val =
    VString bool string
  | VPtr "val option"
  | VStruct "(string \<times> bool \<times> val) list"
  | VSlice "val list"
  | VArray "val list"
  | VMap "(key \<times> val) list"
  | VInterface "val option"
  | VInt int
  | VBool bool

datatype kind =
  Kind_String | Kind_Ptr | Kind_Struct | Kind_Slice | Kind_Array | Kind_Map
  | Kind_Interface | Kind_Int | Kind_Bool

fun Kind :: "val \<Rightarrow> kind" where
  "Kind (VString d s) = Kind_String"
| "Kind (VPtr p) = Kind_Ptr"
| "Kind (VStruct fs) = Kind_Struct"
| "Kind (VSlice xs) = Kind_Slice"
| "Kind (VArray xs) = Kind_Array"
| "Kind (VMap m) = Kind_Map"
| "Kind (VInterface i) = Kind_Interface"
| "Kind (VInt n) = Kind_Int"
| "Kind (VBool b) = Kind_Bool"

text \<open>\<open>v.String()\<close>, read only where the kind is String.\<close>

fun String_of :: "val \<Rightarrow> string" where
  "String_of (VString d s) = s"
| "String_of v = ''<Value>''"

text \<open>Whether the type of a value of kind String is a defined type.\<close>

fun defined_type :: "val \<Rightarrow> bool" where
  "defined_type (VString d s) = d"
| "defined_type v = False"

section \<open>Outcomes\<close>

text \<open>
  A call returns \<open>nil\<close> and leaves the structure in a new state (\<open>Ok\<close>), returns an
  error (\<open>Fail (Error e)\<close>), or panics (\<open>Fail (Panic msg)\<close>). Nothing in the package
  recovers from a panic, so it passes through every caller as an error does.
\<close>

datatype failure = Error string | Panic string

datatype 'a result = Ok 'a | Fail failure

section \<open>The traversal\<close>

text \<open>
  \<open>v.SetMapIndex(key, x)\<close> stores \<open>x\<close> under \<open>key\<close>: it replaces the entry of the key,
  and adds one when the key is new.
\<close>

definition SetMapIndex :: "(key \<times> val) list \<Rightarrow> key \<Rightarrow> val \<Rightarrow> (key \<times> val) list" where
  "SetMapIndex m k x = AList.update k x m"

text \<open>
  \<open>reflect.Value.SetMapIndex\<close> assigns the new element to the map's element type. The
  value \<open>reflect.ValueOf(expanded)\<close> has the predeclared type \<open>string\<close>, which is not
  assignable to a defined string type: there the call panics.
\<close>

definition not_assignable :: string where
  "not_assignable = ''reflect.Value.SetMapIndex: value of type string is not assignable''"

text \<open>
  \<open>doString\<close>: the flag is \<open>v.CanSet()\<close>. \<open>SetString\<close> keeps the type of the value.
\<close>

definition doString :: "env \<Rightarrow> bool \<Rightarrow> bool \<Rightarrow> string \<Rightarrow> val result" where
  "doString env canSet d s = Ok (VString d (if canSet then expandEnvVar env s else s))"

text \<open>
  The flag \<open>a\<close> of a handle is \<open>v.CanAddr()\<close>. \<open>reflect.ValueOf\<close> gives a handle that is
  not addressable; \<open>Elem\<close> of a pointer and \<open>Index\<close> of a slice are addressable;
  \<open>Index\<close> of an array and \<open>Field\<close> of a struct are addressable when the array or the
  struct is. A field can be set (\<open>CanSet\<close>) when it is addressable and exported; the
  traversal never enters a field that cannot be set, so every handle it holds was
  reached through exported fields only, and \<open>CanSet\<close> is \<open>CanAddr\<close> for it.

  \<open>doValue\<close> is the pointer step of the source's \<open>doValue\<close> and \<open>doValue_switch\<close> its
  \<open>switch\<close>. The loops of \<open>doStruct\<close> and \<open>doSliceArray\<close> run over the fields and the
  elements from index 0 up. \<open>doMap env keys m\<close> is the loop over \<open>v.MapKeys()\<close>: \<open>keys\<close> holds
  the keys still to visit, each with the value \<open>v.MapIndex(key)\<close> (the keys are distinct,
  so no earlier round has written the entry), and \<open>m\<close> is the map as the rounds so far
  have left it. For an element that is not of kind String the source copies it to a
  fresh addressable value, runs \<open>doValue\<close> on the copy and stores the copy.
\<close>

fun doValue :: "env \<Rightarrow> bool \<Rightarrow> val \<Rightarrow> val result"
  and doValue_switch :: "env \<Rightarrow> bool \<Rightarrow> val \<Rightarrow> val result"
  and doStruct :: "env \<Rightarrow> bool \<Rightarrow> (string \<times> bool \<times> val) list
    \<Rightarrow> (string \<times> bool \<times> val) list result"
  and doSliceArray :: "env \<Rightarrow> bool \<Rightarrow> val list \<Rightarrow> val list result"
  and doMap :: "env \<Rightarrow> (key \<times> val) list \<Rightarrow> (key \<times> val) list \<Rightarrow> (key \<times> val) list result"
where
  "doValue env a (VPtr None) = Ok (VPtr None)"
| "doValue env a (VPtr (Some t)) =
     (case doValue_switch env True t of
        Ok t' \<Rightarrow> Ok (VPtr (Some t'))
      | Fail f \<Rightarrow> Fail f)"
| "doValue env a v = doValue_switch env a v"
| "doValue_switch env a (VString d s) = doString env a d s"
| "doValue_switch env a (VStruct fs) =
     (case doStruct env a fs of Ok fs' \<Rightarrow> Ok (VStruct fs') | Fail f \<Rightarrow> Fail f)"
| "doValue_switch env a (VSlice xs) =
     (case doSliceArray env True xs of Ok xs' \<Rightarrow> Ok (VSlice xs') | Fail f \<Rightarrow> Fail f)"
| "doValue_switch env a (VArray xs) =
     (case doSliceArray env a xs of Ok xs' \<Rightarrow> Ok (VArray xs') | Fail f \<Rightarrow> Fail f)"
| "doValue_switch env a (VMap m) =
     (case doMap env m m of Ok m' \<Rightarrow> Ok (VMap m') | Fail f \<Rightarrow> Fail f)"
| "doValue_switch env a v = Ok v"
| "doStruct env a [] = Ok []"
| "doStruct env a ((name, exported, x) # fs) =
     (if a \<and> exported then
        (case doValue env a x of
           Fail f \<Rightarrow> Fail f
         | Ok x' \<Rightarrow>
             (case doStruct env a fs of
                Ok fs' \<Rightarrow> Ok ((name, exported, x') # fs')
              | Fail f \<Rightarrow> Fail f))
      else
        (case doStruct env a fs of
           Ok fs' \<Rightarrow> Ok ((name, exported, x) # fs')
         | Fail f \<Rightarrow> Fail f))"
| "doSliceArray env a [] = Ok []"
| "doSliceArray env a (x # xs) =
     (case doValue env a x of
        Fail f \<Rightarrow> Fail f
      | Ok x' \<Rightarrow>
          (case doSliceArray env a xs of
             Ok xs' \<Rightarrow> Ok (x' # xs')
           | Fail f \<Rightarrow> Fail f))"
| "doMap env [] m = Ok m"
| "doMap env ((k, mapValue) # keys) m =
     (if Kind mapValue = Kind_String then
        (let original = String_of mapValue; expanded = expandEnvVar env original in
         if expanded \<noteq> original then
           (if defined_type mapValue then Fail (Panic not_assignable)
            else doMap env keys (SetMapIndex m k (VString False expanded)))
         else doMap env keys m)
      else
        (case doValue env True mapValue of
           Fail f \<Rightarrow> Fail f
         | Ok newValue \<Rightarrow> doMap env keys (SetMapIndex m k newValue)))"

text \<open>
  \<open>Do(v)\<close> hands \<open>reflect.ValueOf(v)\<close> to \<open>doValue\<close>. \<open>Do(nil)\<close> is \<open>Do env (VInterface None)\<close>:
  the invalid handle of a nil interface has no kind that the traversal looks at, as
  a value of kind Interface has none.
\<close>

definition Do :: "env \<Rightarrow> val \<Rightarrow> val result" where
  "Do env v = doValue env False v"

section \<open>Observations and proof devices\<close>

text \<open>
  \<open>blank v\<close> empties every string of \<open>v\<close> and keeps everything else: the kinds, the
  types of the strings, which pointers and interfaces are nil, the field names, the
  lengths, the keys and the order. Two values with the same \<open>blank\<close> differ in the
  contents of strings only.
\<close>

fun blank :: "val \<Rightarrow> val" where
  "blank (VString d s) = VString d []"
| "blank (VPtr None) = VPtr None"
| "blank (VPtr (Some t)) = VPtr (Some (blank t))"
| "blank (VStruct fs) = VStruct (map (\<lambda>(n, e, x). (n, e, blank x)) fs)"
| "blank (VSlice xs) = VSlice (map blank xs)"
| "blank (VArray xs) = VArray (map blank xs)"
| "blank (VMap m) = VMap (map (\<lambda>(k, x). (k, blank x)) m)"
| "blank (VInterface None) = VInterface None"
| "blank (VInterface (Some t)) = VInterface (Some (blank t))"
| "blank v = v"

text \<open>
  A map of Go has no key twice: \<open>distinct_keys v\<close> says so of every map in \<open>v\<close> that is
  not held by an interface.
\<close>

fun distinct_keys :: "val \<Rightarrow> bool" where
  "distinct_keys (VMap m) = (distinct (map fst m) \<and> list_all (\<lambda>(k, x). distinct_keys x) m)"
| "distinct_keys (VPtr (Some t)) = distinct_keys t"
| "distinct_keys (VStruct fs) = list_all (\<lambda>(n, e, x). distinct_keys x) fs"
| "distinct_keys (VSlice xs) = list_all distinct_keys xs"
| "distinct_keys (VArray xs) = list_all distinct_keys xs"
| "distinct_keys v = True"

text \<open>
  What one round of the loop of \<open>doMap\<close> leaves under its key: \<open>doEntry\<close>. The loop over
  entries with distinct keys is \<open>doEntries\<close> (lemma \<open>doMap_doEntries\<close>).
\<close>

definition doEntry :: "env \<Rightarrow> val \<Rightarrow> val result" where
  "doEntry env mapValue =
     (if Kind mapValue = Kind_String then
        (let original = String_of mapValue; expanded = expandEnvVar env original in
         if expanded \<noteq> original then
           (if defined_type mapValue then Fail (Panic not_assignable)
            else Ok (VString False expanded))
         else Ok mapValue)
      else doValue env True mapValue)"

fun doEntries :: "env \<Rightarrow> (key \<times> val) list \<Rightarrow> (key \<times> val) list result" where
  "doEntries env [] = Ok []"
| "doEntries env ((k, x) # es) =
     (case doEntry env x of
        Fail f \<Rightarrow> Fail f
      | Ok x' \<Rightarrow>
          (case doEntries env es of
             Ok es' \<Rightarrow> Ok ((k, x') # es')
           | Fail f \<Rightarrow> Fail f))"

text \<open>
  \<open>assignable v\<close>: no map in \<open>v\<close> holds, as the value of an entry, a string of a defined
  type. What an interface holds is not constrained: the traversal does not look at it.
\<close>

fun assignable :: "val \<Rightarrow> bool" where
  "assignable (VMap m) =
     list_all (\<lambda>(k, x). \<not> (Kind x = Kind_String \<and> defined_type x) \<and> assignable x) m"
| "assignable (VPtr (Some t)) = assignable t"
| "assignable (VStruct fs) = list_all (\<lambda>(n, e, x). assignable x) fs"
| "assignable (VSlice xs) = list_all assignable xs"
| "assignable (VArray xs) = list_all assignable xs"
| "assignable v = True"

text \<open>
  The key lists of all maps of a value, the map itself first and then the maps inside, in
  the order of the traversal.
\<close>

fun all_keys :: "val \<Rightarrow> key list list" where
  "all_keys (VMap m) = map fst m # concat (map (\<lambda>(k, x). all_keys x) m)"
| "all_keys (VPtr (Some t)) = all_keys t"
| "all_keys (VInterface (Some t)) = all_keys t"
| "all_keys (VStruct fs) = concat (map (\<lambda>(n, e, x). all_keys x) fs)"
| "all_keys (VSlice xs) = concat (map all_keys xs)"
| "all_keys (VArray xs) = concat (map all_keys xs)"
| "all_keys v = []"

text \<open>For every pointer of a value, in the order of the traversal, whether it is nil.\<close>

fun nil_ptrs :: "val \<Rightarrow> bool list" where
  "nil_ptrs (VPtr None) = [True]"
| "nil_ptrs (VPtr (Some t)) = False # nil_ptrs t"
| "nil_ptrs (VInterface (Some t)) = nil_ptrs t"
| "nil_ptrs (VStruct fs) = concat (map (\<lambda>(n, e, x). nil_ptrs x) fs)"
| "nil_ptrs (VSlice xs) = concat (map nil_ptrs xs)"
| "nil_ptrs (VArray xs) = concat (map nil_ptrs xs)"
| "nil_ptrs (VMap m) = concat (map (\<lambda>(k, x). nil_ptrs x) m)"
| "nil_ptrs v = []"

text \<open>The value an entry holds after its round, where the round succeeds.\<close>

definition entry_of :: "env \<Rightarrow> val \<Rightarrow> val" where
  "entry_of env x = (case doEntry env x of Ok x' \<Rightarrow> x' | Fail f \<Rightarrow> x)"

text \<open>
  \<open>no_reference v\<close>: from a handle of \<open>v\<close> that is not addressable the traversal comes
  to no pointer that points somewhere, to no slice and to no map. (It does not enter the
  fields of a struct that is not addressable.)
\<close>

fun no_reference :: "val \<Rightarrow> bool" where
  "no_reference (VPtr (Some t)) = False"
| "no_reference (VSlice xs) = False"
| "no_reference (VMap m) = False"
| "no_reference (VArray xs) = list_all no_reference xs"
| "no_reference v = True"

text \<open>
  The environment of the package's tests, and one in which the value of a variable is
  itself a reference.
\<close>

definition env_test :: env where
  "env_test = [''TEST_VAR'' \<mapsto> ''test_value'', ''ANOTHER_VAR'' \<mapsto> ''another_value'',
     ''EMPTY_VAR'' \<mapsto> []]"

definition env_chain :: env where
  "env_chain = [''A'' \<mapsto> ''$B'', ''B'' \<mapsto> ''c'']"

section \<open>The loop over a map, entry by entry\<close>

text \<open>
  A round writes under its own key only: what \<open>MapIndex\<close> gives for the keys still to visit
  is what it gave when the loop began.
\<close>

lemma SetMapIndex_other: "k' \<noteq> k \<Longrightarrow> map_of (SetMapIndex m k y) k' = map_of m k'"
  by (simp add: SetMapIndex_def update_conv')

lemma update_middle:
  "k \<notin> fst ` set pre \<Longrightarrow> AList.update k y (pre @ (k, x) # rest) = pre @ (k, y) # rest"
  by (induction pre) auto

lemma doMap_append:
  "distinct (map fst (pre @ keys)) \<Longrightarrow>
   doMap env keys (pre @ keys) =
     (case doEntries env keys of Ok es' \<Rightarrow> Ok (pre @ es') | Fail f \<Rightarrow> Fail f)"
proof (induction keys arbitrary: pre)
  case Nil
  then show ?case by simp
next
  case (Cons p keys)
  obtain k x where p: "p = (k, x)" by (cases p)
  from Cons.prems p have k_pre: "k \<notin> fst ` set pre" by auto
  have upd: "SetMapIndex (pre @ (k, x) # keys) k y = (pre @ [(k, y)]) @ keys" for y
    using k_pre by (simp add: SetMapIndex_def update_middle)
  have dist: "distinct (map fst ((pre @ [(k, y)]) @ keys))" for y
    using Cons.prems p by auto
  have same: "pre @ (k, x) # keys = (pre @ [(k, x)]) @ keys" by simp
  show ?case
    unfolding p
    apply (simp only: doMap.simps doEntries.simps doEntry_def Let_def upd)
    apply (simp only: same Cons.IH[OF dist])
    apply (auto split: result.splits)
    done
qed

lemma doMap_doEntries: "distinct (map fst m) \<Longrightarrow> doMap env m m = doEntries env m"
  using doMap_append[of "[]" m env] by (simp split: result.splits)

lemma doEntries_keys: "doEntries env es = Ok r \<Longrightarrow> map fst r = map fst es"
  by (induction es arbitrary: r) (auto split: result.splits)

lemma doValue_Kind: "doValue env a v = Ok v' \<Longrightarrow> Kind v' = Kind v"
  by (cases "(env, a, v)" rule: doValue.cases)
     (auto simp: doString_def split: result.splits)

lemma doValue_ptr_Ok:
  "doValue env a (VPtr (Some t)) = Ok v' \<Longrightarrow>
   \<exists>t'. doValue_switch env True t = Ok t' \<and> v' = VPtr (Some t')"
  by (simp split: result.splits)

lemma doValue_not_ptr: "Kind v \<noteq> Kind_Ptr \<Longrightarrow> doValue env a v = doValue_switch env a v"
  by (cases v) simp_all

lemma switch_struct_Ok:
  "doValue_switch env a (VStruct fs) = Ok v' \<Longrightarrow>
   \<exists>fs'. doStruct env a fs = Ok fs' \<and> v' = VStruct fs'"
  by (simp split: result.splits)

lemma switch_slice_Ok:
  "doValue_switch env a (VSlice xs) = Ok v' \<Longrightarrow>
   \<exists>xs'. doSliceArray env True xs = Ok xs' \<and> v' = VSlice xs'"
  by (simp split: result.splits)

lemma switch_array_Ok:
  "doValue_switch env a (VArray xs) = Ok v' \<Longrightarrow>
   \<exists>xs'. doSliceArray env a xs = Ok xs' \<and> v' = VArray xs'"
  by (simp split: result.splits)

lemma switch_map_Ok:
  "doValue_switch env a (VMap m) = Ok v' \<Longrightarrow>
   \<exists>m'. doMap env m m = Ok m' \<and> v' = VMap m'"
  by (simp split: result.splits)

lemma doStruct_cons_Ok:
  "doStruct env a ((n, e, x) # fs) = Ok r \<Longrightarrow>
   \<exists>x' fs'. r = (n, e, x') # fs' \<and> doStruct env a fs = Ok fs' \<and>
     (if a \<and> e then doValue env a x = Ok x' else x' = x)"
  by (cases "a \<and> e") (auto split: result.splits)

lemma doSliceArray_cons_Ok:
  "doSliceArray env a (x # xs) = Ok r \<Longrightarrow>
   \<exists>x' xs'. r = x' # xs' \<and> doValue env a x = Ok x' \<and> doSliceArray env a xs = Ok xs'"
  by (simp split: result.splits)

lemma doEntries_cons_Ok:
  "doEntries env ((k, x) # es) = Ok r \<Longrightarrow>
   \<exists>x' es'. r = (k, x') # es' \<and> doEntry env x = Ok x' \<and> doEntries env es = Ok es'"
  by (simp split: result.splits)

lemma doEntry_string_Ok:
  "doEntry env (VString d s) = Ok x' \<Longrightarrow>
   x' = VString d (expandEnvVar env s) \<and> (d \<longrightarrow> expandEnvVar env s = s)"
  by (auto simp: doEntry_def Let_def split: if_splits)

lemma doEntry_other: "Kind x \<noteq> Kind_String \<Longrightarrow> doEntry env x = doValue env True x"
  by (simp add: doEntry_def)

lemma Kind_String_iff: "Kind x = Kind_String \<longleftrightarrow> (\<exists>d s. x = VString d s)"
  by (cases x) simp_all

lemma doValue_blank_aux:
  fixes m :: "(key \<times> val) list"
  shows
  "doValue env a v = Ok v' \<Longrightarrow> distinct_keys v \<Longrightarrow> blank v' = blank v"
  "doValue_switch env a v = Ok v' \<Longrightarrow> distinct_keys v \<Longrightarrow> blank v' = blank v"
  "doStruct env a fs = Ok fs' \<Longrightarrow> list_all (\<lambda>(n, e, x). distinct_keys x) fs \<Longrightarrow>
        map (\<lambda>(n, e, x). (n, e, blank x)) fs' = map (\<lambda>(n, e, x). (n, e, blank x)) fs"
  "doSliceArray env a xs = Ok xs' \<Longrightarrow> list_all distinct_keys xs \<Longrightarrow>
        map blank xs' = map blank xs"
  "doEntries env keys = Ok r \<Longrightarrow> list_all (\<lambda>(k, x). distinct_keys x) keys \<Longrightarrow>
        map (\<lambda>(k, x). (k, blank x)) r = map (\<lambda>(k, x). (k, blank x)) keys"
proof (induction env a v and env a v and env a fs and env a xs and env keys m
    arbitrary: v' and v' and fs' and xs' and r
    rule: doValue_doValue_switch_doStruct_doSliceArray_doMap.induct)
  case (1 env a)
  then show ?case by simp
next
  case (2 env a t)
  from doValue_ptr_Ok[OF 2(2)] obtain t' where
    t': "doValue_switch env True t = Ok t'" "v' = VPtr (Some t')" by blast
  from 2(1)[OF t'(1)] 2(3) t'(2) show ?case by simp
next
  case (4 env a d s)
  then show ?case by (auto simp: doString_def)
next
  case (5 env a fs)
  from switch_struct_Ok[OF 5(2)] obtain fs' where
    fs': "doStruct env a fs = Ok fs'" "v' = VStruct fs'" by blast
  from 5(1)[OF fs'(1)] 5(3) fs'(2) show ?case by simp
next
  case (6 env a xs)
  from switch_slice_Ok[OF 6(2)] obtain xs' where
    xs': "doSliceArray env True xs = Ok xs'" "v' = VSlice xs'" by blast
  from 6(1)[OF xs'(1)] 6(3) xs'(2) show ?case by simp
next
  case (7 env a xs)
  from switch_array_Ok[OF 7(2)] obtain xs' where
    xs': "doSliceArray env a xs = Ok xs'" "v' = VArray xs'" by blast
  from 7(1)[OF xs'(1)] 7(3) xs'(2) show ?case by simp
next
  case (8 env a m)
  from switch_map_Ok[OF 8(2)] obtain m' where
    m': "doMap env m m = Ok m'" "v' = VMap m'" by blast
  from 8(3) have d: "distinct (map fst m)" and l: "list_all (\<lambda>(k, x). distinct_keys x) m"
    by simp_all
  from m'(1) d have "doEntries env m = Ok m'" by (simp add: doMap_doEntries)
  from 8(1)[OF this l] m'(2) show ?case by simp
next
  case (10 env a)
  then show ?case by simp
next
  case (11 env a name exported x fs)
  from doStruct_cons_Ok[OF 11(4)] obtain x' r where
    r: "fs' = (name, exported, x') # r" "doStruct env a fs = Ok r"
       "if a \<and> exported then doValue env a x = Ok x' else x' = x" by blast
  from 11(5) have wx: "distinct_keys x" and wfs: "list_all (\<lambda>(n, e, x). distinct_keys x) fs"
    by simp_all
  show ?case
  proof (cases "a \<and> exported")
    case True
    with r(3) have x': "doValue env a x = Ok x'" by simp
    from 11(1)[OF True x' wx] 11(2)[OF True x' r(2) wfs] r(1) show ?thesis by simp
  next
    case False
    with r(3) have "x' = x" by simp
    with 11(3)[OF False r(2) wfs] r(1) show ?thesis by simp
  qed
next
  case (12 env a)
  then show ?case by simp
next
  case (13 env a x xs)
  from doSliceArray_cons_Ok[OF 13(3)] obtain x' r where
    r: "xs' = x' # r" "doValue env a x = Ok x'" "doSliceArray env a xs = Ok r" by blast
  from 13(4) have wx: "distinct_keys x" and wxs: "list_all distinct_keys xs" by simp_all
  from 13(1)[OF r(2) wx] 13(2)[OF r(2) r(3) wxs] r(1) show ?case by simp
next
  case (14 env m)
  then show ?case by simp
next
  case (15 env k mapValue keys m)
  from doEntries_cons_Ok[OF 15(5)] obtain x' es' where
    r: "r = (k, x') # es'" "doEntry env mapValue = Ok x'" "doEntries env keys = Ok es'"
    by blast
  from 15(6) have wx: "distinct_keys mapValue" and wks: "list_all (\<lambda>(k, x). distinct_keys x) keys"
    by simp_all
  show ?case
  proof (cases "Kind mapValue = Kind_String")
    case True
    then obtain d s where mv: "mapValue = VString d s" by (auto simp: Kind_String_iff)
    from doEntry_string_Ok[OF r(2)[unfolded mv]] have x': "x' = VString d (expandEnvVar env s)"
      and dd: "d \<longrightarrow> expandEnvVar env s = s" by simp_all
    have rest: "map (\<lambda>(k, x). (k, blank x)) es' = map (\<lambda>(k, x). (k, blank x)) keys"
    proof (cases "expandEnvVar env s = s")
      case e: True
      show ?thesis
        by (rule 15(2)[OF True refl _ _ r(3) wks]) (simp_all add: mv e)
    next
      case e: False
      with dd have nd: "\<not> d" by blast
      show ?thesis
        by (rule 15(1)[OF True refl refl _ _ r(3) wks]) (simp_all add: mv e nd)
    qed
    with r(1) x' mv show ?thesis by simp
  next
    case False
    with r(2) have x': "doValue env True mapValue = Ok x'" by (simp add: doEntry_other)
    from 15(3)[OF False x' wx] 15(4)[OF False x' r(3) wks] r(1) show ?thesis by simp
  qed
qed simp_all

section \<open>Failure, success and a second run\<close>

lemma failure_is_panic_aux:
  "doValue env a v = Fail f \<Longrightarrow> f = Panic not_assignable"
  "doValue_switch env a v = Fail f \<Longrightarrow> f = Panic not_assignable"
  "doStruct env a fs = Fail f \<Longrightarrow> f = Panic not_assignable"
  "doSliceArray env a xs = Fail f \<Longrightarrow> f = Panic not_assignable"
  "doMap env keys m = Fail f \<Longrightarrow> f = Panic not_assignable"
proof (induction env a v and env a v and env a fs and env a xs and env keys m
    rule: doValue_doValue_switch_doStruct_doSliceArray_doMap.induct)
  case (2 env a t)
  then show ?case by (simp split: result.splits)
next
  case (4 env a d s)
  then show ?case by (simp add: doString_def)
next
  case (5 env a fs)
  then show ?case by (simp split: result.splits)
next
  case (6 env a xs)
  then show ?case by (simp split: result.splits)
next
  case (7 env a xs)
  then show ?case by (simp split: result.splits)
next
  case (8 env a m)
  then show ?case by (simp split: result.splits)
next
  case (11 env a name exported x fs)
  show ?case
  proof (cases "a \<and> exported")
    case True
    with 11(4) 11(1)[OF True] 11(2)[OF True] show ?thesis
      by (simp split: result.splits)
  next
    case False
    with 11(4) 11(3)[OF False] show ?thesis
      by (simp split: result.splits)
  qed
next
  case (13 env a x xs)
  then show ?case by (simp split: result.splits)
next
  case (15 env k mapValue keys m)
  show ?case
  proof (cases "Kind mapValue = Kind_String")
    case True
    show ?thesis
    proof (cases "expandEnvVar env (String_of mapValue) = String_of mapValue")
      case e: True
      from 15(5) True e have "doMap env keys m = Fail f" by (simp add: Let_def)
      from 15(2)[OF True refl _ _ this] e show ?thesis by simp
    next
      case e: False
      show ?thesis
      proof (cases "defined_type mapValue")
        case d: True
        with 15(5) True e show ?thesis by (simp add: Let_def)
      next
        case d: False
        from 15(5) True e d have
          "doMap env keys (SetMapIndex m k (VString False (expandEnvVar env (String_of mapValue)))) = Fail f"
          by (simp add: Let_def)
        from 15(1)[OF True refl refl e d this] show ?thesis .
      qed
    qed
  next
    case False
    with 15(5) 15(3)[OF False] 15(4)[OF False] show ?thesis
      by (simp split: result.splits)
  qed
qed simp_all

lemma assignable_Ok_aux:
  "assignable v \<Longrightarrow> \<exists>v'. doValue env a v = Ok v'"
  "assignable v \<Longrightarrow> \<exists>v'. doValue_switch env a v = Ok v'"
  "list_all (\<lambda>(n, e, x). assignable x) fs \<Longrightarrow> \<exists>fs'. doStruct env a fs = Ok fs'"
  "list_all assignable xs \<Longrightarrow> \<exists>xs'. doSliceArray env a xs = Ok xs'"
  "list_all (\<lambda>(k, x). \<not> (Kind x = Kind_String \<and> defined_type x) \<and> assignable x) keys \<Longrightarrow>
     \<exists>r. doMap env keys m = Ok r"
proof (induction env a v and env a v and env a fs and env a xs and env keys m
    rule: doValue_doValue_switch_doStruct_doSliceArray_doMap.induct)
  case (2 env a t)
  then show ?case by (auto split: result.splits)
next
  case (4 env a d s)
  then show ?case by (simp add: doString_def)
next
  case (5 env a fs)
  then show ?case by (auto split: result.splits)
next
  case (6 env a xs)
  then show ?case by (auto split: result.splits)
next
  case (7 env a xs)
  then show ?case by (auto split: result.splits)
next
  case (8 env a m)
  then show ?case by (auto split: result.splits)
next
  case (11 env a name exported x fs)
  from 11(4) have ax: "assignable x" and afs: "list_all (\<lambda>(n, e, x). assignable x) fs"
    by simp_all
  show ?case
  proof (cases "a \<and> exported")
    case True
    from 11(1)[OF True ax] obtain x' where x': "doValue env a x = Ok x'" by blast
    from 11(2)[OF True x' afs] obtain fs' where "doStruct env a fs = Ok fs'" by blast
    with x' True show ?thesis by simp
  next
    case False
    from 11(3)[OF False afs] obtain fs' where "doStruct env a fs = Ok fs'" by blast
    with False show ?thesis by auto
  qed
next
  case (13 env a x xs)
  from 13(3) have ax: "assignable x" and axs: "list_all assignable xs" by simp_all
  from 13(1)[OF ax] obtain x' where x': "doValue env a x = Ok x'" by blast
  from 13(2)[OF x' axs] obtain xs' where "doSliceArray env a xs = Ok xs'" by blast
  with x' show ?case by simp
next
  case (15 env k mapValue keys m)
  from 15(5) have nd: "\<not> (Kind mapValue = Kind_String \<and> defined_type mapValue)"
    and ax: "assignable mapValue"
    and ak: "list_all (\<lambda>(k, x). \<not> (Kind x = Kind_String \<and> defined_type x) \<and> assignable x) keys"
    by simp_all
  show ?case
  proof (cases "Kind mapValue = Kind_String")
    case True
    with nd have d: "\<not> defined_type mapValue" by simp
    show ?thesis
    proof (cases "expandEnvVar env (String_of mapValue) = String_of mapValue")
      case e: True
      from 15(2)[OF True refl _ _ ak, of "String_of mapValue"] e True show ?thesis
        by (simp add: Let_def)
    next
      case e: False
      from 15(1)[OF True refl refl e d ak] e d True show ?thesis
        by (simp add: Let_def)
    qed
  next
    case False
    from 15(3)[OF False ax] obtain x' where x': "doValue env True mapValue = Ok x'" by blast
    from 15(4)[OF False x' ak] x' False show ?thesis by simp
  qed
qed simp_all

lemma HasPrefix_dollar: "HasPrefix s ''$'' \<longleftrightarrow> (\<exists>name. s = CHR ''$'' # name)"
  by (cases s) (auto simp: HasPrefix_def)

lemma expandEnvVar_dollar: "expandEnvVar env (CHR ''$'' # name) = Getenv env name"
  by (simp add: expandEnvVar_def HasPrefix_def TrimPrefix_def)

lemma expandEnvVar_other: "\<not> HasPrefix s ''$'' \<Longrightarrow> expandEnvVar env s = s"
  by (simp add: expandEnvVar_def)

lemma expandEnvVar_idem:
  assumes "\<And>name. \<not> HasPrefix (Getenv env name) ''$''"
  shows "expandEnvVar env (expandEnvVar env s) = expandEnvVar env s"
proof (cases "HasPrefix s ''$''")
  case True
  then obtain name where "s = CHR ''$'' # name" by (auto simp: HasPrefix_dollar)
  with assms[of name] show ?thesis by (simp add: expandEnvVar_dollar expandEnvVar_other)
next
  case False
  then show ?thesis by (simp add: expandEnvVar_other)
qed


lemma doValue_lift:
  assumes "Kind v \<noteq> Kind_Ptr" "doValue env a v = Ok v'"
    and "doValue_switch env a v = Ok v' \<Longrightarrow> doValue_switch env a v' = Ok v'"
  shows "doValue env a v' = Ok v'"
proof -
  from assms(1,2) have sw: "doValue_switch env a v = Ok v'" by (simp add: doValue_not_ptr)
  from doValue_Kind[OF assms(2)] assms(1) have "Kind v' \<noteq> Kind_Ptr" by simp
  with assms(3)[OF sw] show ?thesis by (simp add: doValue_not_ptr)
qed

lemma doValue_idem_aux:
  fixes m :: "(key \<times> val) list"
  assumes nd: "\<And>name. \<not> HasPrefix (Getenv env name) ''$''"
  shows
  "doValue env a v = Ok v' \<Longrightarrow> distinct_keys v \<Longrightarrow> doValue env a v' = Ok v'"
  "doValue_switch env a v = Ok v' \<Longrightarrow> distinct_keys v \<Longrightarrow> doValue_switch env a v' = Ok v'"
  "doStruct env a fs = Ok fs' \<Longrightarrow> list_all (\<lambda>(n, e, x). distinct_keys x) fs \<Longrightarrow>
     doStruct env a fs' = Ok fs'"
  "doSliceArray env a xs = Ok xs' \<Longrightarrow> list_all distinct_keys xs \<Longrightarrow>
     doSliceArray env a xs' = Ok xs'"
  "doEntries env keys = Ok r \<Longrightarrow> list_all (\<lambda>(k, x). distinct_keys x) keys \<Longrightarrow>
     doEntries env r = Ok r"
  using nd
proof (induction env a v and env a v and env a fs and env a xs and env keys m
    arbitrary: v' and v' and fs' and xs' and r
    rule: doValue_doValue_switch_doStruct_doSliceArray_doMap.induct)
  case (1 env a)
  then show ?case by auto
next
  case (2 env a t)
  from doValue_ptr_Ok[OF 2(2)] obtain t' where
    t': "doValue_switch env True t = Ok t'" "v' = VPtr (Some t')" by blast
  from 2(1)[OF t'(1) _ 2(4)] 2(3) t'(2) show ?case by simp
next
  case (4 env a d s)
  then show ?case by (auto simp: doString_def expandEnvVar_idem)
next
  case (5 env a fs)
  from switch_struct_Ok[OF 5(2)] obtain fs' where
    fs': "doStruct env a fs = Ok fs'" "v' = VStruct fs'" by blast
  from 5(1)[OF fs'(1) _ 5(4)] 5(3) fs'(2) show ?case by simp
next
  case (6 env a xs)
  from switch_slice_Ok[OF 6(2)] obtain xs' where
    xs': "doSliceArray env True xs = Ok xs'" "v' = VSlice xs'" by blast
  from 6(1)[OF xs'(1) _ 6(4)] 6(3) xs'(2) show ?case by simp
next
  case (7 env a xs)
  from switch_array_Ok[OF 7(2)] obtain xs' where
    xs': "doSliceArray env a xs = Ok xs'" "v' = VArray xs'" by blast
  from 7(1)[OF xs'(1) _ 7(4)] 7(3) xs'(2) show ?case by simp
next
  case (8 env a m)
  from switch_map_Ok[OF 8(2)] obtain m' where
    m': "doMap env m m = Ok m'" "v' = VMap m'" by blast
  from 8(3) have d: "distinct (map fst m)" and l: "list_all (\<lambda>(k, x). distinct_keys x) m"
    by simp_all
  from m'(1) d have e: "doEntries env m = Ok m'" by (simp add: doMap_doEntries)
  from doEntries_keys[OF e] d have d': "distinct (map fst m')" by simp
  from 8(1)[OF e l 8(4)] have "doEntries env m' = Ok m'" .
  with d' have "doMap env m' m' = Ok m'" by (simp add: doMap_doEntries)
  with m'(2) show ?case by simp
next
  case (10 env a)
  then show ?case by auto
next
  case (11 env a name exported x fs)
  from doStruct_cons_Ok[OF 11(4)] obtain x' r where
    r: "fs' = (name, exported, x') # r" "doStruct env a fs = Ok r"
       "if a \<and> exported then doValue env a x = Ok x' else x' = x" by blast
  from 11(5) have wx: "distinct_keys x" and wfs: "list_all (\<lambda>(n, e, x). distinct_keys x) fs"
    by simp_all
  show ?case
  proof (cases "a \<and> exported")
    case True
    with r(3) have x': "doValue env a x = Ok x'" by simp
    from 11(1)[OF True x' wx 11(6)] 11(2)[OF True x' r(2) wfs 11(6)] r(1) True
    show ?thesis by simp
  next
    case False
    with r(3) have "x' = x" by simp
    with 11(3)[OF False r(2) wfs 11(6)] r(1) False show ?thesis by auto
  qed
next
  case (12 env a)
  then show ?case by auto
next
  case (13 env a x xs)
  from doSliceArray_cons_Ok[OF 13(3)] obtain x' r where
    r: "xs' = x' # r" "doValue env a x = Ok x'" "doSliceArray env a xs = Ok r" by blast
  from 13(4) have wx: "distinct_keys x" and wxs: "list_all distinct_keys xs" by simp_all
  from 13(1)[OF r(2) wx 13(5)] 13(2)[OF r(2) r(3) wxs 13(5)] r(1) show ?case by simp
next
  case (14 env m)
  then show ?case by auto
next
  case (15 env k mapValue keys m)
  from doEntries_cons_Ok[OF 15(5)] obtain x' es' where
    r: "r = (k, x') # es'" "doEntry env mapValue = Ok x'" "doEntries env keys = Ok es'"
    by blast
  from 15(6) have wx: "distinct_keys mapValue" and wks: "list_all (\<lambda>(k, x). distinct_keys x) keys"
    by simp_all
  show ?case
  proof (cases "Kind mapValue = Kind_String")
    case True
    then obtain d s where mv: "mapValue = VString d s" by (auto simp: Kind_String_iff)
    from doEntry_string_Ok[OF r(2)[unfolded mv]] have x': "x' = VString d (expandEnvVar env s)"
      and dd: "d \<longrightarrow> expandEnvVar env s = s" by simp_all
    have rest: "doEntries env es' = Ok es'"
    proof (cases "expandEnvVar env s = s")
      case e: True
      show ?thesis
        by (rule 15(2)[OF True refl _ _ r(3) wks 15(7)]) (simp_all add: mv e)
    next
      case e: False
      with dd have nd: "\<not> d" by blast
      show ?thesis
        by (rule 15(1)[OF True refl refl _ _ r(3) wks 15(7)]) (simp_all add: mv e nd)
    qed
    have "doEntry env x' = Ok x'"
      unfolding x' by (simp add: doEntry_def Let_def expandEnvVar_idem[OF 15(7)])
    with rest r(1) show ?thesis by simp
  next
    case False
    with r(2) have x': "doValue env True mapValue = Ok x'" by (simp add: doEntry_other)
    from doValue_Kind[OF x'] False have "Kind x' \<noteq> Kind_String" by simp
    with 15(3)[OF False x' wx 15(7)] have "doEntry env x' = Ok x'" by (simp add: doEntry_other)
    with 15(4)[OF False x' r(3) wks 15(7)] r(1) show ?thesis by simp
  qed
next
  case "3_1"
  show ?case
    by (rule doValue_lift[OF _ "3_1"(2)]) (use "3_1"(1,3,4) in simp_all)
next
  case "3_2"
  show ?case
    by (rule doValue_lift[OF _ "3_2"(2)]) (use "3_2"(1,3,4) in simp_all)
next
  case "3_3"
  show ?case
    by (rule doValue_lift[OF _ "3_3"(2)]) (use "3_3"(1,3,4) in simp_all)
next
  case "3_4"
  show ?case
    by (rule doValue_lift[OF _ "3_4"(2)]) (use "3_4"(1,3,4) in simp_all)
next
  case "3_5"
  show ?case
    by (rule doValue_lift[OF _ "3_5"(2)]) (use "3_5"(1,3,4) in simp_all)
next
  case "3_6"
  show ?case
    by (rule doValue_lift[OF _ "3_6"(2)]) (use "3_6"(1,3,4) in auto)
next
  case "3_7"
  show ?case
    by (rule doValue_lift[OF _ "3_7"(2)]) (use "3_7"(1,3,4) in auto)
next
  case "3_8"
  show ?case
    by (rule doValue_lift[OF _ "3_8"(2)]) (use "3_8"(1,3,4) in auto)
qed auto

section \<open>Evaluating the traversal\<close>

lemmas run_simps = Do_def doString_def expandEnvVar_def HasPrefix_def TrimPrefix_def
  Getenv_def SetMapIndex_def Let_def env_test_def env_chain_def not_assignable_def

lemma all_keys_blank: "all_keys (blank v) = all_keys v"
  by (induction v rule: blank.induct)
     (auto simp: comp_def case_prod_beta intro!: arg_cong[where f = concat])

lemma nil_ptrs_blank: "nil_ptrs (blank v) = nil_ptrs v"
  by (induction v rule: blank.induct)
     (auto simp: comp_def case_prod_beta intro!: arg_cong[where f = concat])

lemma doStruct_not_addressable: "doStruct env False fs = Ok fs"
  by (induction fs) auto

section \<open>Lists of elements, fields and entries\<close>

lemma doEntries_Ok_iff:
  "doEntries env es = Ok r \<longleftrightarrow>
     (\<forall>(k, x) \<in> set es. \<exists>x'. doEntry env x = Ok x') \<and>
     r = map (\<lambda>(k, x). (k, entry_of env x)) es"
proof (induction es arbitrary: r)
  case Nil
  then show ?case by auto
next
  case (Cons p es)
  obtain k x where p: "p = (k, x)" by (cases p)
  show ?case
  proof (cases "doEntry env x")
    case (Ok x')
    show ?thesis
    proof (cases "doEntries env es")
      case o: (Ok es')
      with Cons.IH[of es'] Ok p show ?thesis by (auto simp: entry_of_def)
    next
      case f: (Fail f)
      with Cons.IH Ok p show ?thesis by (auto simp: entry_of_def)
    qed
  next
    case (Fail f)
    with p show ?thesis by auto
  qed
qed

lemma doSliceArray_nth:
  "doSliceArray env a xs = Ok ys \<Longrightarrow>
   length ys = length xs \<and> (\<forall>i<length xs. doValue env a (xs ! i) = Ok (ys ! i))"
proof (induction xs arbitrary: ys)
  case Nil
  then show ?case by simp
next
  case (Cons x xs)
  from doSliceArray_cons_Ok[OF Cons.prems] obtain x' r where
    r: "ys = x' # r" "doValue env a x = Ok x'" "doSliceArray env a xs = Ok r" by blast
  from Cons.IH[OF r(3)] r(1,2) show ?case by (auto simp: nth_Cons split: nat.splits)
qed

lemma doSliceArray_append:
  "doSliceArray env a (xs @ zs) =
     (case doSliceArray env a xs of
        Fail f \<Rightarrow> Fail f
      | Ok xs' \<Rightarrow>
          (case doSliceArray env a zs of Fail f \<Rightarrow> Fail f | Ok zs' \<Rightarrow> Ok (xs' @ zs')))"
  by (induction xs) (simp_all split: result.splits)

lemma doValue_string: "doValue env a (VString d s) = Ok (VString d (if a then expandEnvVar env s else s))"
  by (simp add: doString_def)

lemma doSliceArray_strings:
  "doSliceArray env a (map (VString d) ss) =
     Ok (map (\<lambda>s. VString d (if a then expandEnvVar env s else s)) ss)"
  by (induction ss) (simp_all add: doString_def)

lemma doStruct_nth:
  "doStruct env a fs = Ok fs' \<Longrightarrow>
   length fs' = length fs \<and>
   (\<forall>i<length fs. \<forall>n e x. fs ! i = (n, e, x) \<longrightarrow>
      (if a \<and> e then \<exists>x'. doValue env a x = Ok x' \<and> fs' ! i = (n, e, x')
       else fs' ! i = fs ! i))"
proof (induction fs arbitrary: fs')
  case Nil
  then show ?case by simp
next
  case (Cons p fs)
  obtain n e x where p: "p = (n, e, x)" by (cases p)
  from doStruct_cons_Ok[OF Cons.prems[unfolded p]] obtain x' r where
    r: "fs' = (n, e, x') # r" "doStruct env a fs = Ok r"
       "if a \<and> e then doValue env a x = Ok x' else x' = x" by blast
  from Cons.IH[OF r(2)] have len: "length r = length fs"
    and rest: "\<And>i n e x. i < length fs \<Longrightarrow> fs ! i = (n, e, x) \<Longrightarrow>
      (if a \<and> e then \<exists>x'. doValue env a x = Ok x' \<and> r ! i = (n, e, x') else r ! i = fs ! i)"
    by blast+
  show ?case
  proof (intro conjI allI impI)
    show "length fs' = length (p # fs)" using len r(1) by simp
  next
    fix i n' e' y
    assume i: "i < length (p # fs)" and f: "(p # fs) ! i = (n', e', y)"
    show "if a \<and> e' then \<exists>x'. doValue env a y = Ok x' \<and> fs' ! i = (n', e', x')
          else fs' ! i = (p # fs) ! i"
    proof (cases i)
      case 0
      with f p have "n' = n" "e' = e" "y = x" by simp_all
      with r(1,3) 0 p show ?thesis by (cases "a \<and> e") auto
    next
      case (Suc j)
      with i f have "j < length fs" "fs ! j = (n', e', y)" by simp_all
      from rest[OF this] Suc r(1) show ?thesis by (cases "a \<and> e'") auto
    qed
  qed
qed

lemma doStruct_unexported:
  "\<forall>(n, e, x) \<in> set fs. \<not> e \<Longrightarrow> doStruct env a fs = Ok fs"
  by (induction fs) auto

lemma doValue_scalar:
  "Kind x \<in> {Kind_Int, Kind_Bool, Kind_Interface} \<Longrightarrow> doValue env a x = Ok x"
  by (cases x) simp_all

lemma doStruct_scalars:
  "\<forall>(n, e, x) \<in> set fs. Kind x \<in> {Kind_Int, Kind_Bool, Kind_Interface} \<Longrightarrow>
   doStruct env a fs = Ok fs"
proof (induction fs)
  case Nil
  then show ?case by simp
next
  case (Cons p fs)
  obtain n e x where p: "p = (n, e, x)" by (cases p)
  from Cons.prems p have "doValue env a x = Ok x" by (simp add: doValue_scalar)
  moreover from Cons have "doStruct env a fs = Ok fs" by simp
  ultimately show ?case using p by auto
qed

lemma doSliceArray_fixed:
  "\<forall>x \<in> set xs. doValue env a x = Ok x \<Longrightarrow> doSliceArray env a xs = Ok xs"
  by (induction xs) simp_all

lemma no_reference_unchanged: "no_reference v \<Longrightarrow> doValue env False v = Ok v"
proof (induction v rule: no_reference.induct)
  case (4 xs)
  then have "\<forall>x \<in> set xs. doValue env False x = Ok x" by (simp add: list_all_iff)
  then show ?case by (simp add: doSliceArray_fixed)
qed (simp_all add: doString_def doStruct_not_addressable)

lemma Do_returns_no_error: "Do env v \<noteq> Fail (Error e)"
  using failure_is_panic_aux(1)[of env False v "Error e"] by (auto simp: Do_def)

lemma Do_assignable: "assignable v \<Longrightarrow> \<exists>v'. Do env v = Ok v'"
  by (simp add: Do_def assignable_Ok_aux(1))

section \<open>The package's tests\<close>

text \<open>
  Cases of the table of \<open>TestDo\<close> and of the examples, run on the model with the
  environment the test sets up.
\<close>

lemma test_simple_string:
  "Do env_test (VPtr (Some (VStruct [(''Value'', True, VString False ''$TEST_VAR'')])))
     = Ok (VPtr (Some (VStruct [(''Value'', True, VString False ''test_value'')])))"
  by (simp add: run_simps)

lemma test_missing_and_empty:
  "Do env_test (VPtr (Some (VStruct [(''Value'', True, VString False ''$MISSING_VAR'')])))
     = Ok (VPtr (Some (VStruct [(''Value'', True, VString False [])])))"
  "Do env_test (VPtr (Some (VStruct [(''Value'', True, VString False ''$EMPTY_VAR'')])))
     = Ok (VPtr (Some (VStruct [(''Value'', True, VString False [])])))"
  by (simp_all add: run_simps)

lemma test_map_keys_are_not_replaced:
  "Do env_test (VPtr (Some (VStruct [(''Data'', True,
       VMap [(StringKey ''$TEST_VAR'', VString False ''value1''),
             (StringKey ''static_key'', VString False ''$ANOTHER_VAR''),
             (StringKey ''$MISSING_VAR'', VString False ''value3'')])])))
     = Ok (VPtr (Some (VStruct [(''Data'', True,
       VMap [(StringKey ''$TEST_VAR'', VString False ''value1''),
             (StringKey ''static_key'', VString False ''another_value''),
             (StringKey ''$MISSING_VAR'', VString False ''value3'')])])))"
  by (simp add: run_simps)

lemma test_nil_pointer:
  "Do env_test (VPtr (Some (VStruct [(''Ptr'', True, VPtr None)])))
     = Ok (VPtr (Some (VStruct [(''Ptr'', True, VPtr None)])))"
  "Do env_test (VPtr None) = Ok (VPtr None)"
  "Do env_test (VPtr (Some (VPtr None))) = Ok (VPtr (Some (VPtr None)))"
  by (simp_all add: run_simps)

lemma test_complex_nested_structure:
  "Do env_test (VPtr (Some (VMap [(StringKey ''group1'',
       VSlice [VStruct [(''Name'', True, VString False ''$TEST_VAR''),
          (''Values'', True, VSlice [VString False ''$ANOTHER_VAR'', VString False ''static'']),
          (''Meta'', True, VMap [(StringKey ''key'', VString False ''$TEST_VAR'')])]])])))
     = Ok (VPtr (Some (VMap [(StringKey ''group1'',
       VSlice [VStruct [(''Name'', True, VString False ''test_value''),
          (''Values'', True, VSlice [VString False ''another_value'', VString False ''static'']),
          (''Meta'', True, VMap [(StringKey ''key'', VString False ''test_value'')])]])])))"
  by (simp add: run_simps)

lemma test_slice_of_pointers:
  "Do env_test (VPtr (Some (VSlice [VPtr (Some (VString False ''$TEST_VAR'')),
       VPtr (Some (VString False ''$ANOTHER_VAR'')), VPtr None])))
     = Ok (VPtr (Some (VSlice [VPtr (Some (VString False ''test_value'')),
       VPtr (Some (VString False ''another_value'')), VPtr None])))"
  by (simp add: run_simps)

lemma test_map_with_pointer_values:
  "Do env_test (VPtr (Some (VMap [(StringKey ''key1'', VPtr (Some (VString False ''$TEST_VAR''))),
       (StringKey ''key2'', VPtr None)])))
     = Ok (VPtr (Some (VMap [(StringKey ''key1'', VPtr (Some (VString False ''test_value''))),
       (StringKey ''key2'', VPtr None)])))"
  by (simp add: run_simps)

lemma test_top_level_array:
  "Do env_test (VPtr (Some (VArray [VString False ''$TEST_VAR'', VString False ''static'',
       VString False ''$ANOTHER_VAR''])))
     = Ok (VPtr (Some (VArray [VString False ''test_value'', VString False ''static'',
       VString False ''another_value''])))"
  by (simp add: run_simps)

section \<open>The claims\<close>

text \<open>
  C1. The substitution rule returns a string that does not begin with \<open>$\<close> unchanged.
  For a string \<open>$name\<close> it returns what the environment accessor gives for \<open>name\<close>: the
  empty string when \<open>name\<close> is not defined and when it is defined and empty, and the
  value when it is defined.
\<close>

theorem expandEnvVar_rule:
  "((\<forall>name. s \<noteq> CHR ''$'' # name) \<longrightarrow> expandEnvVar env s = s) \<and>
   expandEnvVar env (CHR ''$'' # name) = Getenv env name \<and>
   (env u = None \<longrightarrow> expandEnvVar env (CHR ''$'' # u) = []) \<and>
   (env e = Some [] \<longrightarrow> expandEnvVar env (CHR ''$'' # e) = []) \<and>
   (env n = Some x \<longrightarrow> expandEnvVar env (CHR ''$'' # n) = x)"
  by (auto simp: expandEnvVar_dollar expandEnvVar_other HasPrefix_dollar Getenv_def)

theorem expandEnvVar_rule_witness:
  "expandEnvVar env_test ''no_substitution'' = ''no_substitution'' \<and>
   expandEnvVar env_test ''$MISSING_VAR'' = [] \<and>
   expandEnvVar env_test ''$EMPTY_VAR'' = [] \<and>
   expandEnvVar env_test ''$TEST_VAR'' = ''test_value''"
  using expandEnvVar_rule[of "''no_substitution''" env_test "''X''" "''MISSING_VAR''"
      "''EMPTY_VAR''" "''TEST_VAR''" "''test_value''"]
  by (simp add: env_test_def)

text \<open>
  C2. The keys of every map of the structure are the same after the traversal as before
  it: the same keys, as many, in every map at every depth. In the witness the key
  \<open>$TEST_VAR\<close> stays as it is although the environment defines \<open>TEST_VAR\<close>.
\<close>

theorem map_keys_unchanged:
  assumes "distinct_keys v" and "doValue env a v = Ok v'"
  shows "all_keys v' = all_keys v"
proof -
  from doValue_blank_aux(1)[OF assms(2) assms(1)] have "blank v' = blank v" .
  then have "all_keys (blank v') = all_keys (blank v)" by simp
  then show ?thesis by (simp only: all_keys_blank)
qed

theorem map_keys_unchanged_witness:
  "Do env_test (VPtr (Some (VMap [(StringKey ''key1'', VString False ''$TEST_VAR''),
        (StringKey ''$TEST_VAR'', VString False ''value1'')])))
     = Ok (VPtr (Some (VMap [(StringKey ''key1'', VString False ''test_value''),
        (StringKey ''$TEST_VAR'', VString False ''value1'')]))) \<and>
   all_keys (VPtr (Some (VMap [(StringKey ''key1'', VString False ''test_value''),
        (StringKey ''$TEST_VAR'', VString False ''value1'')])))
     = [[StringKey ''key1'', StringKey ''$TEST_VAR'']]"
proof -
  let ?v = "VPtr (Some (VMap [(StringKey ''key1'', VString False ''$TEST_VAR''),
        (StringKey ''$TEST_VAR'', VString False ''value1'')]))"
  let ?v' = "VPtr (Some (VMap [(StringKey ''key1'', VString False ''test_value''),
        (StringKey ''$TEST_VAR'', VString False ''value1'')]))"
  have d: "distinct_keys ?v" by simp
  have r: "doValue env_test False ?v = Ok ?v'" by (simp add: run_simps)
  from map_keys_unchanged[OF d r] r show ?thesis by (simp add: Do_def)
qed

text \<open>
  C3. The claim is that \<open>Do\<close> returns \<open>nil\<close> for every input. It does not: a map whose
  element type is a defined string type, with an element that the rule changes, makes
  \<open>SetMapIndex\<close> panic, here for \<open>map[string]Secret{"k": "$MISSING_VAR"}\<close> behind a
  pointer.
\<close>

theorem Do_panics_on_defined_string_element:
  "Do env_test (VPtr (Some (VMap [(StringKey ''k'', VString True ''$MISSING_VAR'')])))
     = Fail (Panic not_assignable)"
  by (simp add: run_simps)

text \<open>
  C4. A nil pointer ends the traversal of its branch with success and stays nil, at the
  top (a nil pointer, a pointer to a nil pointer, a nil interface) and inside a
  structure: after a traversal that returns, the pointers that were nil are nil and the
  others are not. No nil pointer makes the traversal fail: it succeeds on every structure
  that is \<open>assignable\<close>, wherever its nil pointers are.
\<close>

theorem nil_pointer_halts:
  "doValue env a (VPtr None) = Ok (VPtr None) \<and>
   Do env (VPtr None) = Ok (VPtr None) \<and>
   Do env (VPtr (Some (VPtr None))) = Ok (VPtr (Some (VPtr None))) \<and>
   Do env (VInterface None) = Ok (VInterface None) \<and>
   (distinct_keys v \<longrightarrow> doValue env a v = Ok v' \<longrightarrow> nil_ptrs v' = nil_ptrs v) \<and>
   (assignable v \<longrightarrow> (\<exists>v'. doValue env a v = Ok v'))"
proof -
  have "nil_ptrs v' = nil_ptrs v" if "distinct_keys v" "doValue env a v = Ok v'"
  proof -
    from doValue_blank_aux(1)[OF that(2) that(1)] have "nil_ptrs (blank v') = nil_ptrs (blank v)"
      by simp
    then show ?thesis by (simp only: nil_ptrs_blank)
  qed
  then show ?thesis by (simp add: Do_def assignable_Ok_aux(1))
qed

theorem nil_pointer_halts_witness:
  "Do env_test (VPtr (Some (VStruct [(''Ptr'', True, VPtr None),
        (''Value'', True, VString False ''$TEST_VAR'')])))
     = Ok (VPtr (Some (VStruct [(''Ptr'', True, VPtr None),
        (''Value'', True, VString False ''test_value'')]))) \<and>
   nil_ptrs (VPtr (Some (VStruct [(''Ptr'', True, VPtr None),
        (''Value'', True, VString False ''test_value'')])))
     = [False, True]"
proof -
  let ?v = "VPtr (Some (VStruct [(''Ptr'', True, VPtr None),
        (''Value'', True, VString False ''$TEST_VAR'')]))"
  let ?v' = "VPtr (Some (VStruct [(''Ptr'', True, VPtr None),
        (''Value'', True, VString False ''test_value'')]))"
  have d: "distinct_keys ?v" and s: "assignable ?v" by simp_all
  have r: "doValue env_test False ?v = Ok ?v'" by (simp add: run_simps)
  from nil_pointer_halts[of env_test False ?v ?v'] d s r show ?thesis by (simp add: Do_def)
qed

text \<open>
  C5. The claim is that a pointer to a pointer is followed until a value that is not a
  pointer is reached. The pointer step runs once: behind a pointer to a pointer nothing is
  visited, and a string there is not substituted.
\<close>

theorem pointer_to_pointer_not_followed:
  "doValue env a (VPtr (Some (VPtr p))) = Ok (VPtr (Some (VPtr p))) \<and>
   Do env_test (VPtr (Some (VPtr (Some (VString False ''$TEST_VAR'')))))
     = Ok (VPtr (Some (VPtr (Some (VString False ''$TEST_VAR'')))))"
  by (simp add: Do_def)

text \<open>
  C6. The claim is that a second run of the traversal changes nothing. It does when the
  value of a variable begins with \<open>$\<close> itself: the second run takes that value for
  a reference (the counterexample). As amended: when no value of the environment begins
  with \<open>$\<close>, a second run on the result of a run that returned \<open>nil\<close> returns \<open>nil\<close> and
  leaves the result as it is.
\<close>

theorem second_run_changes_nothing:
  assumes "\<And>name. \<not> HasPrefix (Getenv env name) ''$''"
    and "distinct_keys v" and "Do env v = Ok v1"
  shows "Do env v1 = Ok v1"
  using doValue_idem_aux(1)[of env False v v1] assms by (simp add: Do_def)

theorem second_run_changes_nothing_witness:
  "Do env_test (VPtr (Some (VSlice [VString False ''$TEST_VAR'', VString False ''static''])))
     = Ok (VPtr (Some (VSlice [VString False ''test_value'', VString False ''static'']))) \<and>
   Do env_test (VPtr (Some (VSlice [VString False ''test_value'', VString False ''static''])))
     = Ok (VPtr (Some (VSlice [VString False ''test_value'', VString False ''static''])))"
proof -
  let ?v = "VPtr (Some (VSlice [VString False ''$TEST_VAR'', VString False ''static'']))"
  let ?v1 = "VPtr (Some (VSlice [VString False ''test_value'', VString False ''static'']))"
  have e: "\<not> HasPrefix (Getenv env_test name) ''$''" for name
    by (simp add: env_test_def Getenv_def HasPrefix_def)
  have d: "distinct_keys ?v" by simp
  have r: "Do env_test ?v = Ok ?v1" by (simp add: run_simps)
  from second_run_changes_nothing[of env_test ?v ?v1, OF e d r] r show ?thesis by simp
qed

theorem second_run_counterexample:
  "Do env_chain (VPtr (Some (VString False ''$A''))) = Ok (VPtr (Some (VString False ''$B''))) \<and>
   Do env_chain (VPtr (Some (VString False ''$B''))) = Ok (VPtr (Some (VString False ''c''))) \<and>
   VPtr (Some (VString False ''c'')) \<noteq> VPtr (Some (VString False ''$B''))"
  by (simp add: run_simps)

text \<open>
  C7. The claim is that in every slice and array each string element is replaced by the
  substitution rule applied to it. The elements of an array that is not addressable (an
  array passed to \<open>Do\<close> by value) cannot be set, and \<open>doString\<close> leaves them (the
  counterexample). As amended: the handler goes through the indices from 0 up and runs the
  dispatcher on every element (the elements of a first part before those of the rest,
  and a failure there ends the loop); the length and the order stay; a string element
  of a slice, and of an array that is addressable, is replaced by the substitution rule
  applied to it, and a string element of an array that is not addressable is left as it
  is.
\<close>

theorem sequence_elements:
  "(doValue env a (VSlice xs) = Ok v' \<longrightarrow>
      (\<exists>ys. v' = VSlice ys \<and> length ys = length xs \<and>
         (\<forall>i<length xs. doValue env True (xs ! i) = Ok (ys ! i)) \<and>
         (\<forall>i<length xs. \<forall>d s. xs ! i = VString d s \<longrightarrow>
            ys ! i = VString d (expandEnvVar env s)))) \<and>
   (doValue env a (VArray xs) = Ok v' \<longrightarrow>
      (\<exists>ys. v' = VArray ys \<and> length ys = length xs \<and>
         (\<forall>i<length xs. doValue env a (xs ! i) = Ok (ys ! i)) \<and>
         (\<forall>i<length xs. \<forall>d s. xs ! i = VString d s \<longrightarrow>
            ys ! i = VString d (if a then expandEnvVar env s else s)))) \<and>
   doValue env a (VSlice (map (VString d) ss))
     = Ok (VSlice (map (\<lambda>s. VString d (expandEnvVar env s)) ss)) \<and>
   doValue env True (VArray (map (VString d) ss))
     = Ok (VArray (map (\<lambda>s. VString d (expandEnvVar env s)) ss)) \<and>
   doSliceArray env a (xs @ zs) =
     (case doSliceArray env a xs of
        Fail f \<Rightarrow> Fail f
      | Ok xs' \<Rightarrow>
          (case doSliceArray env a zs of Fail f \<Rightarrow> Fail f | Ok zs' \<Rightarrow> Ok (xs' @ zs')))"
proof (intro conjI impI)
  assume r: "doValue env a (VSlice xs) = Ok v'"
  then have "doValue_switch env a (VSlice xs) = Ok v'" by simp
  from switch_slice_Ok[OF this] obtain ys where
    ys: "doSliceArray env True xs = Ok ys" "v' = VSlice ys" by blast
  from doSliceArray_nth[OF ys(1)] have len: "length ys = length xs"
    and el: "\<forall>i<length xs. doValue env True (xs ! i) = Ok (ys ! i)" by simp_all
  have "\<forall>i<length xs. \<forall>d s. xs ! i = VString d s \<longrightarrow>
      ys ! i = VString d (expandEnvVar env s)"
  proof (intro allI impI)
    fix i d s
    assume "i < length xs" "xs ! i = VString d s"
    with el have "doValue env True (VString d s) = Ok (ys ! i)" by metis
    then show "ys ! i = VString d (expandEnvVar env s)" by (simp add: doString_def)
  qed
  with ys(2) len el show "\<exists>ys. v' = VSlice ys \<and> length ys = length xs \<and>
         (\<forall>i<length xs. doValue env True (xs ! i) = Ok (ys ! i)) \<and>
         (\<forall>i<length xs. \<forall>d s. xs ! i = VString d s \<longrightarrow>
            ys ! i = VString d (expandEnvVar env s))" by blast
next
  assume r: "doValue env a (VArray xs) = Ok v'"
  then have "doValue_switch env a (VArray xs) = Ok v'" by simp
  from switch_array_Ok[OF this] obtain ys where
    ys: "doSliceArray env a xs = Ok ys" "v' = VArray ys" by blast
  from doSliceArray_nth[OF ys(1)] have len: "length ys = length xs"
    and el: "\<forall>i<length xs. doValue env a (xs ! i) = Ok (ys ! i)" by simp_all
  have "\<forall>i<length xs. \<forall>d s. xs ! i = VString d s \<longrightarrow>
      ys ! i = VString d (if a then expandEnvVar env s else s)"
  proof (intro allI impI)
    fix i d s
    assume "i < length xs" "xs ! i = VString d s"
    with el have "doValue env a (VString d s) = Ok (ys ! i)" by metis
    then show "ys ! i = VString d (if a then expandEnvVar env s else s)"
      by (simp add: doString_def)
  qed
  with ys(2) len el show "\<exists>ys. v' = VArray ys \<and> length ys = length xs \<and>
         (\<forall>i<length xs. doValue env a (xs ! i) = Ok (ys ! i)) \<and>
         (\<forall>i<length xs. \<forall>d s. xs ! i = VString d s \<longrightarrow>
            ys ! i = VString d (if a then expandEnvVar env s else s))" by blast
next
  show "doValue env a (VSlice (map (VString d) ss))
     = Ok (VSlice (map (\<lambda>s. VString d (expandEnvVar env s)) ss))"
    by (simp add: doSliceArray_strings)
next
  show "doValue env True (VArray (map (VString d) ss))
     = Ok (VArray (map (\<lambda>s. VString d (expandEnvVar env s)) ss))"
    by (simp add: doSliceArray_strings)
next
  show "doSliceArray env a (xs @ zs) =
     (case doSliceArray env a xs of
        Fail f \<Rightarrow> Fail f
      | Ok xs' \<Rightarrow>
          (case doSliceArray env a zs of Fail f \<Rightarrow> Fail f | Ok zs' \<Rightarrow> Ok (xs' @ zs')))"
    by (rule doSliceArray_append)
qed

theorem sequence_by_value_counterexample:
  "Do env_test (VArray [VString False ''$TEST_VAR'']) = Ok (VArray [VString False ''$TEST_VAR'']) \<and>
   expandEnvVar env_test ''$TEST_VAR'' = ''test_value''"
  by (simp add: run_simps)


theorem sequence_elements_witness:
  "doValue env_test False (VSlice [VString False ''$TEST_VAR'', VString False ''static'',
        VString False ''$ANOTHER_VAR''])
     = Ok (VSlice [VString False ''test_value'', VString False ''static'',
        VString False ''another_value'']) \<and>
   doValue env_test True (VArray [VString False ''$TEST_VAR'', VString False ''static'',
        VString False ''$ANOTHER_VAR''])
     = Ok (VArray [VString False ''test_value'', VString False ''static'',
        VString False ''another_value''])"
proof -
  let ?xs = "[VString False ''$TEST_VAR'', VString False ''static'', VString False ''$ANOTHER_VAR'']"
  let ?ys = "[VString False ''test_value'', VString False ''static'', VString False ''another_value'']"
  have s: "doValue env_test False (VSlice ?xs) = Ok (VSlice ?ys)" by (simp add: run_simps)
  have a: "doValue env_test True (VArray ?xs) = Ok (VArray ?ys)" by (simp add: run_simps)
  note c1 = sequence_elements[of env_test False ?xs "VSlice ?ys", THEN conjunct1, THEN mp, OF s]
  note c2 = sequence_elements[of env_test True ?xs "VArray ?ys", THEN conjunct2, THEN conjunct1,
      THEN mp, OF a]
  from c1 c2 s a show ?thesis by - (rule conjI, assumption, assumption)
qed

text \<open>
  C8. In a struct, the dispatcher runs on the fields that can be set, which are exported;
  a field that is not exported is passed over without an error, whatever it holds, and
  stays as it is. A struct whose fields are all of kind Int, Bool or Interface is the
  same after the traversal.
\<close>

theorem struct_fields:
  "(doValue env a (VStruct fs) = Ok v' \<longrightarrow>
      (\<exists>fs'. v' = VStruct fs' \<and> length fs' = length fs \<and>
         (\<forall>i<length fs. \<forall>n e x. fs ! i = (n, e, x) \<longrightarrow>
            (if a \<and> e then \<exists>x'. doValue env a x = Ok x' \<and> fs' ! i = (n, e, x')
             else fs' ! i = fs ! i)))) \<and>
   ((\<forall>(n, e, x) \<in> set fs. \<not> e) \<longrightarrow> doValue env a (VStruct fs) = Ok (VStruct fs)) \<and>
   ((\<forall>(n, e, x) \<in> set fs. Kind x \<in> {Kind_Int, Kind_Bool, Kind_Interface}) \<longrightarrow>
      doValue env a (VStruct fs) = Ok (VStruct fs))"
proof (intro conjI impI)
  assume "doValue env a (VStruct fs) = Ok v'"
  then have "doValue_switch env a (VStruct fs) = Ok v'" by simp
  from switch_struct_Ok[OF this] obtain fs' where
    fs': "doStruct env a fs = Ok fs'" "v' = VStruct fs'" by blast
  from doStruct_nth[OF fs'(1)] fs'(2)
  show "\<exists>fs'. v' = VStruct fs' \<and> length fs' = length fs \<and>
         (\<forall>i<length fs. \<forall>n e x. fs ! i = (n, e, x) \<longrightarrow>
            (if a \<and> e then \<exists>x'. doValue env a x = Ok x' \<and> fs' ! i = (n, e, x')
             else fs' ! i = fs ! i))" by blast
next
  assume "\<forall>(n, e, x) \<in> set fs. \<not> e"
  then show "doValue env a (VStruct fs) = Ok (VStruct fs)"
    by (simp add: doStruct_unexported)
next
  assume "\<forall>(n, e, x) \<in> set fs. Kind x \<in> {Kind_Int, Kind_Bool, Kind_Interface}"
  then show "doValue env a (VStruct fs) = Ok (VStruct fs)"
    by (simp add: doStruct_scalars)
qed

theorem struct_fields_witness:
  "doValue env_test True (VStruct [(''S'', True, VString False ''$TEST_VAR''),
        (''hidden'', False, VString False ''$TEST_VAR''), (''I'', True, VInt 42)])
     = Ok (VStruct [(''S'', True, VString False ''test_value''),
        (''hidden'', False, VString False ''$TEST_VAR''), (''I'', True, VInt 42)]) \<and>
   doValue env_test True (VStruct [(''secrets'', False,
        VMap [(StringKey ''k'', VString True ''$MISSING_VAR'')])])
     = Ok (VStruct [(''secrets'', False,
        VMap [(StringKey ''k'', VString True ''$MISSING_VAR'')])]) \<and>
   doValue env_test True (VStruct [(''I'', True, VInt 42), (''B'', True, VBool True)])
     = Ok (VStruct [(''I'', True, VInt 42), (''B'', True, VBool True)])"
proof -
  let ?f1 = "[(''S'', True, VString False ''$TEST_VAR''),
        (''hidden'', False, VString False ''$TEST_VAR''), (''I'', True, VInt 42)]"
  let ?r1 = "VStruct [(''S'', True, VString False ''test_value''),
        (''hidden'', False, VString False ''$TEST_VAR''), (''I'', True, VInt 42)]"
  let ?f2 = "[(''secrets'', False, VMap [(StringKey ''k'', VString True ''$MISSING_VAR'')])]"
  let ?f3 = "[(''I'', True, VInt 42), (''B'', True, VBool True)]"
  have r1: "doValue env_test True (VStruct ?f1) = Ok ?r1" by (simp add: run_simps)
  have h2: "\<forall>(n, e, x) \<in> set ?f2. \<not> e" by simp
  have h3: "\<forall>(n, e, x) \<in> set ?f3. Kind x \<in> {Kind_Int, Kind_Bool, Kind_Interface}" by simp
  note c1 = struct_fields[of env_test True ?f1 ?r1, THEN conjunct1, THEN mp, OF r1]
  note c2 = struct_fields[of env_test True ?f2, THEN conjunct2, THEN conjunct1, THEN mp, OF h2]
  note c3 = struct_fields[of env_test True ?f3, THEN conjunct2, THEN conjunct2, THEN mp, OF h3]
  from c1 r1 c2 c3 show ?thesis by - (rule conjI, assumption, rule conjI, assumption, assumption)
qed

lemma map_order_Ok:
  assumes "distinct (map fst m)" and "mset m2 = mset m"
    and "doValue env a (VMap m) = Ok v"
  shows "\<exists>r r2. v = VMap r \<and> doValue env a (VMap m2) = Ok (VMap r2) \<and> map_of r2 = map_of r"
proof -
  let ?F = "\<lambda>(k, x). (k, entry_of env x)"
  from assms(3) have "doValue_switch env a (VMap m) = Ok v" by simp
  from switch_map_Ok[OF this] obtain r where r: "doMap env m m = Ok r" "v = VMap r" by blast
  from r(1) assms(1) have "doEntries env m = Ok r" by (simp add: doMap_doEntries)
  then have ok: "\<forall>(k, x) \<in> set m. \<exists>x'. doEntry env x = Ok x'" and rm: "r = map ?F m"
    by (simp_all add: doEntries_Ok_iff)
  from assms(2) have sets: "set m2 = set m" by (rule mset_eq_setD)
  from assms(2) have "mset (map fst m2) = mset (map fst m)" by simp
  with assms(1) have d2: "distinct (map fst m2)" by (metis mset_eq_imp_distinct_iff)
  from ok sets have "doEntries env m2 = Ok (map ?F m2)" by (simp add: doEntries_Ok_iff)
  with d2 have "doMap env m2 m2 = Ok (map ?F m2)" by (simp add: doMap_doEntries)
  then have run2: "doValue env a (VMap m2) = Ok (VMap (map ?F m2))" by simp
  from d2 assms(1) sets have "map_of m2 = map_of m" by (simp add: map_of_inject_set)
  then have "map_of (map ?F m2) = map_of (map ?F m)" by (simp add: map_of_map)
  with run2 r(2) rm show ?thesis by blast
qed

text \<open>
  C9. What the traversal leaves of a map does not depend on the order in which the keys
  are visited: for two orders of the same entries, both runs return \<open>nil\<close> and leave the
  same map, or both fail in the same way.
\<close>

theorem map_order_irrelevant:
  assumes "distinct (map fst m)" and "mset m2 = mset m"
  shows "(\<forall>r. doValue env a (VMap m) = Ok (VMap r) \<longrightarrow>
            (\<exists>r2. doValue env a (VMap m2) = Ok (VMap r2) \<and> map_of r2 = map_of r)) \<and>
         (\<forall>f. doValue env a (VMap m) = Fail f \<longrightarrow> doValue env a (VMap m2) = Fail f)"
proof (intro conjI allI impI)
  fix r
  assume "doValue env a (VMap m) = Ok (VMap r)"
  from map_order_Ok[OF assms this]
  show "\<exists>r2. doValue env a (VMap m2) = Ok (VMap r2) \<and> map_of r2 = map_of r" by auto
next
  fix f
  assume f: "doValue env a (VMap m) = Fail f"
  from assms(2) have "mset (map fst m2) = mset (map fst m)" by simp
  with assms(1) have d2: "distinct (map fst m2)" by (metis mset_eq_imp_distinct_iff)
  show "doValue env a (VMap m2) = Fail f"
  proof (cases "doValue env a (VMap m2)")
    case (Ok v2)
    from map_order_Ok[OF d2 assms(2)[symmetric] Ok] f show ?thesis by auto
  next
    case (Fail f2)
    from failure_is_panic_aux(1)[OF Fail] failure_is_panic_aux(1)[OF f] Fail
    show ?thesis by simp
  qed
qed

theorem map_order_irrelevant_witness:
  "doValue env_test True (VMap [(StringKey ''key1'', VString False ''$TEST_VAR''),
        (StringKey ''key2'', VString False ''static'')])
     = Ok (VMap [(StringKey ''key1'', VString False ''test_value''),
        (StringKey ''key2'', VString False ''static'')]) \<and>
   doValue env_test True (VMap [(StringKey ''key2'', VString False ''static''),
        (StringKey ''key1'', VString False ''$TEST_VAR'')])
     = Ok (VMap [(StringKey ''key2'', VString False ''static''),
        (StringKey ''key1'', VString False ''test_value'')]) \<and>
   map_of [(StringKey ''key2'', VString False ''static''),
        (StringKey ''key1'', VString False ''test_value'')]
     = map_of [(StringKey ''key1'', VString False ''test_value''),
        (StringKey ''key2'', VString False ''static'')]"
proof -
  let ?m = "[(StringKey ''key1'', VString False ''$TEST_VAR''),
        (StringKey ''key2'', VString False ''static'')]"
  let ?m2 = "[(StringKey ''key2'', VString False ''static''),
        (StringKey ''key1'', VString False ''$TEST_VAR'')]"
  let ?r = "[(StringKey ''key1'', VString False ''test_value''),
        (StringKey ''key2'', VString False ''static'')]"
  let ?r2 = "[(StringKey ''key2'', VString False ''static''),
        (StringKey ''key1'', VString False ''test_value'')]"
  have d: "distinct (map fst ?m)" by simp
  have p: "mset ?m2 = mset ?m" by (simp add: add.commute)
  have r: "doValue env_test True (VMap ?m) = Ok (VMap ?r)" by (simp add: run_simps)
  have r2: "doValue env_test True (VMap ?m2) = Ok (VMap ?r2)" by (simp add: run_simps)
  from map_order_irrelevant[OF d p, of env_test True, THEN conjunct1, THEN spec, THEN mp, OF r]
  obtain q where q: "doValue env_test True (VMap ?m2) = Ok (VMap q)" "map_of q = map_of ?r"
    by blast
  from q(1) r2 have "q = ?r2" by simp
  with q(2) have "map_of ?r2 = map_of ?r" by simp
  with r r2 show ?thesis by - (rule conjI, assumption, rule conjI, assumption, assumption)
qed

text \<open>
  C10. The claim is that a string whose handle cannot be set is left as it is, that the
  call returns \<open>nil\<close>, and that nothing is changed through a handle that is not
  addressable. The last part does not hold for a map: \<open>SetMapIndex\<close> asks for no
  addressable handle, and a map passed to \<open>Do\<close> by value is rewritten (the
  counterexample). As amended: a string whose handle cannot be set is left as it is and
  the call returns \<open>nil\<close>, so for a string and for a struct passed to \<open>Do\<close> by value; and
  nothing is changed through a handle that is not addressable as long as no pointer that
  points somewhere, no slice and no map leads on from it (\<open>no_reference\<close>).
\<close>

theorem not_settable_string_unchanged:
  "doString env False d s = Ok (VString d s) \<and>
   doValue env False (VString d s) = Ok (VString d s) \<and>
   Do env (VString d s) = Ok (VString d s) \<and>
   Do env (VStruct fs) = Ok (VStruct fs) \<and>
   (no_reference v \<longrightarrow> Do env v = Ok v)"
  by (simp add: Do_def doString_def doStruct_not_addressable no_reference_unchanged)

theorem not_settable_string_unchanged_witness:
  "Do env_test (VString False ''$TEST_VAR'') = Ok (VString False ''$TEST_VAR'') \<and>
   Do env_test (VStruct [(''Value'', True, VString False ''$TEST_VAR'')])
     = Ok (VStruct [(''Value'', True, VString False ''$TEST_VAR'')]) \<and>
   Do env_test (VArray [VStruct [(''Name'', True, VString False ''$TEST_VAR'')],
        VString False ''$ANOTHER_VAR''])
     = Ok (VArray [VStruct [(''Name'', True, VString False ''$TEST_VAR'')],
        VString False ''$ANOTHER_VAR''])"
proof -
  let ?v = "VArray [VStruct [(''Name'', True, VString False ''$TEST_VAR'')],
        VString False ''$ANOTHER_VAR'']"
  have n: "no_reference ?v" by simp
  note t = not_settable_string_unchanged[of env_test False "''$TEST_VAR''"
      "[(''Value'', True, VString False ''$TEST_VAR'')]" ?v]
  note c3 = t[THEN conjunct2, THEN conjunct2, THEN conjunct1]
  note c4 = t[THEN conjunct2, THEN conjunct2, THEN conjunct2, THEN conjunct1]
  note c5 = t[THEN conjunct2, THEN conjunct2, THEN conjunct2, THEN conjunct2, THEN mp, OF n]
  from c3 c4 c5 show ?thesis by - (rule conjI, assumption, rule conjI, assumption, assumption)
qed

theorem map_by_value_counterexample:
  "Do env_test (VMap [(StringKey ''k'', VString False ''$TEST_VAR'')])
     = Ok (VMap [(StringKey ''k'', VString False ''test_value'')]) \<and>
   VMap [(StringKey ''k'', VString False ''test_value'')]
     \<noteq> VMap [(StringKey ''k'', VString False ''$TEST_VAR'')]"
  by (simp add: run_simps)

end
